theory Spec2Isabelle
  imports Complex_Main
begin

section \<open>JavaScript numbers\<close>

text \<open>
  A JavaScript Number is an IEEE 754 binary64 value. The model keeps the numeric value
  of a finite number as a real, and has the two infinities and NaN. Every arithmetic
  operation computes the exact real result and rounds it to the nearest binary64
  value, ties to even, as the machine does; a result whose rounded magnitude reaches
  \<open>2^1024\<close> becomes an infinity.

  The model has one zero. The negative zero of binary64 compares equal to the positive
  one, its square is the positive zero, and it differs from it only as a divisor; the
  program below never divides by a zero (a divisor is a distance that did not compare
  below \<open>0.1\<close>, or the product of two such values).
\<close>

datatype double = Finite real | PInf | NInf | NaN

text \<open>
  The binade of a non-zero real: \<open>exponent x = e\<close> when \<open>2^e \<le> |x| < 2^(e+1)\<close>, and
  \<open>-1022\<close> for the subnormal range. Neighbouring binary64 values around \<open>x\<close> are
  \<open>ulp x\<close> apart.
\<close>

definition exponent :: "real \<Rightarrow> int" where
  "exponent x = max \<lfloor>log 2 \<bar>x\<bar>\<rfloor> (- 1022)"

definition ulp :: "real \<Rightarrow> real" where
  "ulp x = 2 powi (exponent x - 52)"

text \<open>The nearest integer, the even one of the two when \<open>q\<close> lies half-way.\<close>

definition rne :: "real \<Rightarrow> int" where
  "rne q = (let f = \<lfloor>q\<rfloor>; d = q - of_int f
            in if d < 1 / 2 then f else if 1 / 2 < d then f + 1
               else if even f then f else f + 1)"

definition overflow_threshold :: real where
  "overflow_threshold = 2 powi 1024"

definition round64 :: "real \<Rightarrow> double" where
  "round64 x =
     (if x = 0 then Finite 0
      else let v = of_int (rne (x / ulp x)) * ulp x
           in if overflow_threshold \<le> v then PInf
              else if v \<le> - overflow_threshold then NInf
              else Finite v)"

fun fneg :: "double \<Rightarrow> double" where
  "fneg (Finite x) = Finite (- x)"
| "fneg PInf = NInf"
| "fneg NInf = PInf"
| "fneg NaN = NaN"

fun fadd :: "double \<Rightarrow> double \<Rightarrow> double" where
  "fadd (Finite x) (Finite y) = round64 (x + y)"
| "fadd NaN b = NaN"
| "fadd a NaN = NaN"
| "fadd PInf NInf = NaN"
| "fadd NInf PInf = NaN"
| "fadd PInf b = PInf"
| "fadd a PInf = PInf"
| "fadd NInf b = NInf"
| "fadd a NInf = NInf"

definition fsub :: "double \<Rightarrow> double \<Rightarrow> double" where
  "fsub a b = fadd a (fneg b)"

fun fmul :: "double \<Rightarrow> double \<Rightarrow> double" where
  "fmul (Finite x) (Finite y) = round64 (x * y)"
| "fmul NaN b = NaN"
| "fmul a NaN = NaN"
| "fmul (Finite x) PInf = (if x = 0 then NaN else if 0 < x then PInf else NInf)"
| "fmul (Finite x) NInf = (if x = 0 then NaN else if 0 < x then NInf else PInf)"
| "fmul PInf (Finite y) = (if y = 0 then NaN else if 0 < y then PInf else NInf)"
| "fmul NInf (Finite y) = (if y = 0 then NaN else if 0 < y then NInf else PInf)"
| "fmul PInf PInf = PInf"
| "fmul PInf NInf = NInf"
| "fmul NInf PInf = NInf"
| "fmul NInf NInf = PInf"

fun fdiv :: "double \<Rightarrow> double \<Rightarrow> double" where
  "fdiv (Finite x) (Finite y) =
     (if y = 0 then (if x = 0 then NaN else if 0 < x then PInf else NInf)
      else round64 (x / y))"
| "fdiv NaN b = NaN"
| "fdiv a NaN = NaN"
| "fdiv (Finite x) PInf = Finite 0"
| "fdiv (Finite x) NInf = Finite 0"
| "fdiv PInf (Finite y) = (if 0 \<le> y then PInf else NInf)"
| "fdiv NInf (Finite y) = (if 0 \<le> y then NInf else PInf)"
| "fdiv PInf PInf = NaN"
| "fdiv PInf NInf = NaN"
| "fdiv NInf PInf = NaN"
| "fdiv NInf NInf = NaN"

fun fsqrt :: "double \<Rightarrow> double" where
  "fsqrt (Finite x) = (if x < 0 then NaN else round64 (sqrt x))"
| "fsqrt PInf = PInf"
| "fsqrt NInf = NaN"
| "fsqrt NaN = NaN"

declare fadd.simps(1) [simp del] fmul.simps(1) [simp del] fdiv.simps(1) [simp del]
  fsqrt.simps(1) [simp del]

text \<open>The comparisons \<open><\<close> and \<open><=\<close>: false whenever an operand is NaN.\<close>

fun flt :: "double \<Rightarrow> double \<Rightarrow> bool" where
  "flt (Finite x) (Finite y) = (x < y)"
| "flt NaN b = False"
| "flt a NaN = False"
| "flt PInf b = False"
| "flt a NInf = False"
| "flt NInf b = True"
| "flt a PInf = True"

fun fle :: "double \<Rightarrow> double \<Rightarrow> bool" where
  "fle (Finite x) (Finite y) = (x \<le> y)"
| "fle NaN b = False"
| "fle a NaN = False"
| "fle NInf b = True"
| "fle a PInf = True"
| "fle PInf b = False"
| "fle a NInf = False"

section \<open>The potential field model of the egg simulation\<close>

text \<open>
  The class \<open>PhysicsSimulation\<close> holds a list of point masses on the vertical axis, the
  gravitational constant \<open>G\<close> and the rotation rate \<open>omega\<close>. A mass literal
  \<open>{ y: -1.5, m: 4.0 }\<close> is a record with the fields \<open>mass_y\<close> and \<open>mass_m\<close> (the
  source reads them as \<open>mass.y\<close> and \<open>mass.m\<close>). The literals of the two constructors
  (\<open>1.5\<close>, \<open>4.0\<close>, \<open>2.0\<close>, \<open>1.0\<close>, \<open>0.0\<close>, \<open>0.5\<close>) and of \<open>solveRadius\<close>
  (\<open>3.0\<close>, \<open>8.0\<close>, \<open>0.5\<close>) are binary64 values; \<open>0.1\<close> is not, and the literal
  stands for the nearest binary64 value.
\<close>

record mass =
  mass_y :: double
  mass_m :: double

record PhysicsSimulation =
  masses :: "mass list"
  G :: double
  omega :: double

text \<open>The value built by \<open>new THREE.Vector3(gx, gy, gz)\<close>.\<close>

datatype Vector3 = Vector3 double double double

fun vx :: "Vector3 \<Rightarrow> double" where
  "vx (Vector3 a b c) = a"

fun vy :: "Vector3 \<Rightarrow> double" where
  "vy (Vector3 a b c) = b"

fun vz :: "Vector3 \<Rightarrow> double" where
  "vz (Vector3 a b c) = c"

subsection \<open>The two constructors\<close>

text \<open>
  The repository holds two versions of the class. The first one (with \<open>getGradient\<close>,
  which the main program calls) starts with \<open>omega = 0.0\<close>; the second one (without
  \<open>getGradient\<close>) starts with \<open>omega = 0.5\<close>. The bodies of \<open>getPotential\<close> and
  \<open>solveRadius\<close> are the same in both.
\<close>

definition constructor :: PhysicsSimulation where
  "constructor =
     \<lparr> masses = [\<lparr> mass_y = fneg (Finite 1.5), mass_m = Finite 4.0 \<rparr>,
                 \<lparr> mass_y = Finite 2.0, mass_m = Finite 2.0 \<rparr>],
       G = Finite 1.0,
       omega = Finite 0.0 \<rparr>"

definition constructor_part_001 :: PhysicsSimulation where
  "constructor_part_001 =
     \<lparr> masses = [\<lparr> mass_y = fneg (Finite 1.5), mass_m = Finite 4.0 \<rparr>,
                 \<lparr> mass_y = Finite 2.0, mass_m = Finite 2.0 \<rparr>],
       G = Finite 1.0,
       omega = Finite 0.5 \<rparr>"

subsection \<open>getPotential\<close>

text \<open>
  The loop over \<open>this.masses\<close>, with the running value of \<open>potential\<close>. The
  \<open>return -10000\<close> inside the loop leaves the whole function: the loop's result is
  \<open>Inl\<close> of the returned value then, and \<open>Inr\<close> of the accumulated potential when the
  loop runs to its end.
\<close>

fun getPotential_loop ::
  "PhysicsSimulation \<Rightarrow> double \<Rightarrow> double \<Rightarrow> double \<Rightarrow> mass list \<Rightarrow> double
     \<Rightarrow> double + double" where
  "getPotential_loop this x y z [] potential = Inr potential"
| "getPotential_loop this x y z (mass # rest) potential =
     (let dx = x;
          dy = fsub y (mass_y mass);
          dz = z;
          dist = fsqrt (fadd (fadd (fmul dx dx) (fmul dy dy)) (fmul dz dz))
      in if flt dist (round64 0.1) then Inl (fneg (Finite 10000))
         else getPotential_loop this x y z rest
                (fsub potential (fdiv (fmul (G this) (mass_m mass)) dist)))"

definition getPotential :: "PhysicsSimulation \<Rightarrow> double \<Rightarrow> double \<Rightarrow> double \<Rightarrow> double" where
  "getPotential this x y z =
     (case getPotential_loop this x y z (masses this) (Finite 0) of
        Inl v \<Rightarrow> v
      | Inr potential \<Rightarrow>
          (let r_xy_sq = fadd (fmul x x) (fmul z z)
           in fsub potential
                (fmul (fmul (fmul (Finite 0.5) (omega this)) (omega this)) r_xy_sq)))"

subsection \<open>solveRadius\<close>

text \<open>
  The \<open>for\<close> loop with its counter \<open>i\<close> and the two bounds it updates; it returns the
  final bounds.
\<close>

function solveRadius_loop ::
  "PhysicsSimulation \<Rightarrow> double \<Rightarrow> double \<Rightarrow> double \<Rightarrow> double \<Rightarrow> nat \<Rightarrow> nat
     \<Rightarrow> double \<Rightarrow> double \<Rightarrow> double \<times> double" where
  "solveRadius_loop this dx dy dz targetPotential iterations i rMin rMax =
     (if i < iterations then
        (let rMid = fmul (fadd rMin rMax) (Finite 0.5);
             val = getPotential this (fmul dx rMid) (fmul dy rMid) (fmul dz rMid)
         in if flt val targetPotential
            then solveRadius_loop this dx dy dz targetPotential iterations (Suc i) rMid rMax
            else solveRadius_loop this dx dy dz targetPotential iterations (Suc i) rMin rMid)
      else (rMin, rMax))"
  by pat_completeness auto
termination
  by (relation "measure (\<lambda>(this, dx, dy, dz, targetPotential, iterations, i, rMin, rMax).
        iterations - i)") auto

declare solveRadius_loop.simps [simp del]

definition solveRadius ::
  "PhysicsSimulation \<Rightarrow> double \<Rightarrow> double \<Rightarrow> double \<Rightarrow> double \<Rightarrow> double" where
  "solveRadius this dx dy dz targetPotential =
     (case solveRadius_loop this dx dy dz targetPotential 15 0 (Finite 3.0) (Finite 8.0) of
        (rMin, rMax) \<Rightarrow> fmul (fadd rMin rMax) (Finite 0.5))"

subsection \<open>getGradient\<close>

text \<open>
  The loop over \<open>this.masses\<close> with the three running components; \<open>continue\<close> goes to
  the next mass with the components unchanged.
\<close>

fun getGradient_loop ::
  "PhysicsSimulation \<Rightarrow> double \<Rightarrow> double \<Rightarrow> double \<Rightarrow> mass list
     \<Rightarrow> double \<times> double \<times> double \<Rightarrow> double \<times> double \<times> double" where
  "getGradient_loop this x y z [] (gx, gy, gz) = (gx, gy, gz)"
| "getGradient_loop this x y z (mass # rest) (gx, gy, gz) =
     (let dx = x;
          dy = fsub y (mass_y mass);
          dz = z;
          r2 = fadd (fadd (fmul dx dx) (fmul dy dy)) (fmul dz dz);
          r = fsqrt r2;
          r3 = fmul r2 r
      in if flt r (round64 0.1) then getGradient_loop this x y z rest (gx, gy, gz)
         else (let factor = fdiv (fmul (G this) (mass_m mass)) r3
               in getGradient_loop this x y z rest
                    (fadd gx (fmul factor dx), fadd gy (fmul factor dy),
                     fadd gz (fmul factor dz))))"

definition getGradient :: "PhysicsSimulation \<Rightarrow> double \<Rightarrow> double \<Rightarrow> double \<Rightarrow> Vector3" where
  "getGradient this x y z =
     (case getGradient_loop this x y z (masses this) (Finite 0, Finite 0, Finite 0) of
        (gx, gy, gz) \<Rightarrow>
          Vector3 (fsub gx (fmul (fmul (omega this) (omega this)) x))
                  gy
                  (fsub gz (fmul (fmul (omega this) (omega this)) z)))"

subsection \<open>Notions used by the statements\<close>

text \<open>
  The distance to a mass as both loops compute it: \<open>Math.sqrt(dx * dx + dy * dy + dz * dz)\<close>
  with \<open>dx = x\<close>, \<open>dy = y - mass.y\<close>, \<open>dz = z\<close>, every operation rounded.
\<close>

definition computed_dist :: "mass \<Rightarrow> double \<Rightarrow> double \<Rightarrow> double \<Rightarrow> double" where
  "computed_dist mass x y z =
     fsqrt (fadd (fadd (fmul x x) (fmul (fsub y (mass_y mass)) (fsub y (mass_y mass))))
              (fmul z z))"

text \<open>
  The Euclidean distance from the point \<open>(x, y, z)\<close> to the place \<open>(0, h, 0)\<close> of a mass,
  as a real number.
\<close>

definition dist_to :: "real \<Rightarrow> real \<Rightarrow> real \<Rightarrow> real \<Rightarrow> real" where
  "dist_to h x y z = sqrt (x\<^sup>2 + (y - h)\<^sup>2 + z\<^sup>2)"

text \<open>
  One bisection step as the specification words it, on a bracket of real numbers:
  evaluate the potential at the midpoint of the bracket scaled along the direction; the
  midpoint becomes the lower bound when that value is strictly below the target, and
  the upper bound otherwise.
\<close>

text \<open>The multiples of \<open>2^-i\<close>: the values the bounds of the solver take after \<open>i\<close> steps.\<close>

definition dyadic :: "nat \<Rightarrow> real \<Rightarrow> bool" where
  "dyadic i x \<longleftrightarrow> (\<exists>n::int. x * 2 ^ i = of_int n)"

definition bisect_step ::
  "PhysicsSimulation \<Rightarrow> double \<Rightarrow> double \<Rightarrow> double \<Rightarrow> double \<Rightarrow> real \<times> real \<Rightarrow> real \<times> real" where
  "bisect_step this dx dy dz targetPotential b =
     (let mid = (fst b + snd b) / 2
      in if flt (getPotential this (fmul dx (Finite mid)) (fmul dy (Finite mid))
                   (fmul dz (Finite mid))) targetPotential
         then (mid, snd b) else (fst b, mid))"

section \<open>Rounding\<close>

lemma rne_near:
  assumes "\<bar>q - of_int n\<bar> < 1 / 2"
  shows "rne q = n"
proof -
  have lo: "of_int n - 1 / 2 < q" and hi: "q < of_int n + 1 / 2"
    using assms by linarith+
  show ?thesis
  proof (cases "of_int n \<le> q")
    case True
    have f: "\<lfloor>q\<rfloor> = n" using True hi by (intro floor_unique) linarith+
    have "q - of_int n < 1 / 2" using hi by linarith
    then show ?thesis by (simp add: rne_def f Let_def)
  next
    case False
    have a: "real_of_int (n - 1) \<le> q" using lo by simp
    have b: "q < real_of_int (n - 1) + 1" using False by simp
    have f: "\<lfloor>q\<rfloor> = n - 1" by (rule floor_unique [OF a b])
    have "\<not> q - of_int (n - 1) < 1 / 2" "1 / 2 < q - of_int (n - 1)" using lo by simp_all
    then show ?thesis by (simp add: rne_def f Let_def)
  qed
qed

lemma rne_error: "\<bar>of_int (rne q) - q\<bar> \<le> 1 / 2"
proof -
  define f where "f = \<lfloor>q\<rfloor>"
  have lo: "of_int f \<le> q" and hi: "q < of_int f + 1"
    unfolding f_def by linarith+
  consider "q - of_int f < 1 / 2" | "1 / 2 < q - of_int f" | "q - of_int f = 1 / 2"
    by linarith
  then show ?thesis
  proof cases
    case 1
    then have "rne q = f" by (simp add: rne_def Let_def f_def)
    with 1 lo show ?thesis by simp
  next
    case 2
    then have "rne q = f + 1" by (simp add: rne_def Let_def f_def)
    with 2 hi show ?thesis by simp
  next
    case 3
    then have "rne q = f \<or> rne q = f + 1" by (simp add: rne_def Let_def f_def)
    with 3 show ?thesis by auto
  qed
qed

lemma two_powi_pos: "0 < (2::real) powi e"
  by simp

lemma two_powi_mono: "a \<le> b \<Longrightarrow> (2::real) powi a \<le> 2 powi b"
  by (rule power_int_increasing) simp_all

lemma two_powi_Suc: "(2::real) powi (e + 1) = 2 * 2 powi e"
  by (simp add: power_int_add)

lemma exponent_eq:
  assumes "2 powi e \<le> \<bar>x\<bar>" "\<bar>x\<bar> < 2 powi (e + 1)" "- 1022 \<le> e"
  shows "exponent x = e"
proof -
  have pos: "0 < \<bar>x\<bar>" using assms(1) two_powi_pos [of e] by linarith
  have p1: "(2::real) powr real_of_int e = 2 powi e"
    by (rule powr_real_of_int') simp_all
  have "(2::real) powr real_of_int (e + 1) = 2 powi (e + 1)"
    by (rule powr_real_of_int') simp_all
  then have p2: "(2::real) powr (real_of_int e + 1) = 2 powi (e + 1)" by simp
  have "2 powr (real_of_int e) \<le> \<bar>x\<bar> \<and> \<bar>x\<bar> < 2 powr (real_of_int e + 1)"
    using assms(1,2) by (simp only: p1 p2)
  then have "\<lfloor>log 2 \<bar>x\<bar>\<rfloor> = e"
    using pos by (subst floor_log_eq_powr_iff) simp_all
  then show ?thesis using assms(3) by (simp add: exponent_def)
qed

lemma exponent_le:
  assumes x: "x \<noteq> 0" and le: "\<bar>x\<bar> \<le> 2 powi k" and k: "- 1022 \<le> k"
  shows "exponent x \<le> k"
proof -
  have p: "(2::real) powr real_of_int k = 2 powi k"
    by (rule powr_real_of_int') simp_all
  have "log 2 \<bar>x\<bar> \<le> log 2 (2 powr real_of_int k)"
    using x le by (subst log_le_cancel_iff) (simp_all add: p)
  then have "log 2 \<bar>x\<bar> \<le> real_of_int k" by simp
  then have "\<lfloor>log 2 \<bar>x\<bar>\<rfloor> \<le> k" by (simp add: floor_le_iff)
  then show ?thesis using k by (simp add: exponent_def)
qed

lemma round64_zero [simp]: "round64 0 = Finite 0"
  by (simp add: round64_def)

lemma overflow_threshold_pos: "0 < overflow_threshold"
  by (simp add: overflow_threshold_def)

lemma round64_cert:
  assumes e: "2 powi e \<le> \<bar>x\<bar>" "\<bar>x\<bar> < 2 powi (e + 1)" "- 1022 \<le> e"
    and n: "\<bar>x / 2 powi (e - 52) - of_int n\<bar> < 1 / 2"
    and fin: "\<bar>of_int n * 2 powi (e - 52)\<bar> < overflow_threshold"
  shows "round64 x = Finite (of_int n * 2 powi (e - 52))"
proof -
  have ex: "exponent x = e" using e by (rule exponent_eq)
  have "0 < \<bar>x\<bar>" using e(1) two_powi_pos [of e] by linarith
  then have x0: "x \<noteq> 0" by auto
  have r: "rne (x / ulp x) = n" unfolding ulp_def ex using n by (rule rne_near)
  have v: "of_int (rne (x / ulp x)) * ulp x = of_int n * 2 powi (e - 52)"
    unfolding r by (simp only: ulp_def ex)
  have "\<not> overflow_threshold \<le> of_int n * 2 powi (e - 52)"
       "\<not> of_int n * 2 powi (e - 52) \<le> - overflow_threshold"
    using fin by linarith+
  then show ?thesis
    unfolding round64_def Let_def v using x0 by simp
qed

lemma round64_exact:
  assumes e: "2 powi e \<le> \<bar>x\<bar>" "\<bar>x\<bar> < 2 powi (e + 1)" "- 1022 \<le> e" "e \<le> 1023"
    and n: "x / 2 powi (e - 52) = of_int n"
  shows "round64 x = Finite x"
proof -
  have xn: "of_int n * 2 powi (e - 52) = x"
    using n [symmetric] by simp
  have "(2::real) powi (e + 1) \<le> 2 powi 1024" using e(4) by (intro two_powi_mono) simp
  then have fin: "\<bar>of_int n * 2 powi (e - 52)\<bar> < overflow_threshold"
    unfolding xn overflow_threshold_def using e(2) by linarith
  have "\<bar>x / 2 powi (e - 52) - of_int n\<bar> < 1 / 2" by (simp add: n)
  from round64_cert [OF e(1,2,3) this fin] show ?thesis by (simp only: xn)
qed

lemma round64_dyadic_binade:
  fixes x :: real and e k :: nat
  assumes b: "2 ^ e \<le> x" "x < 2 ^ Suc e" and d: "x * 2 ^ k \<in> \<int>" and ke: "k + e \<le> 52"
  shows "round64 x = Finite x"
proof -
  have x: "\<bar>x\<bar> = x" using b(1) zero_less_power [of "2::real" e] by linarith
  from d obtain m :: int where m: "x * 2 ^ k = of_int m" by (auto elim: Ints_cases)
  have split: "(2::real) ^ (52 - e) = 2 ^ k * 2 ^ (52 - e - k)"
    using ke by (simp flip: power_add)
  have "x / 2 powi (int e - 52) = x * 2 ^ (52 - e)"
    using ke by (simp add: power_int_def field_simps nat_diff_distrib)
  also have "\<dots> = of_int m * 2 ^ (52 - e - k)"
    unfolding split using m by (simp add: mult.assoc [symmetric])
  also have "\<dots> = of_int (m * 2 ^ (52 - e - k))" by simp
  finally have n: "x / 2 powi (int e - 52) = of_int (m * 2 ^ (52 - e - k))" .
  have p1: "2 powi (int e) \<le> \<bar>x\<bar>" using b(1) by (simp add: x)
  have p2: "\<bar>x\<bar> < 2 powi (int e + 1)" using b(2) by (simp add: x power_int_add)
  show ?thesis
    by (rule round64_exact [OF p1 p2 _ _ n]) (use ke in simp_all)
qed

lemma round64_grid:
  fixes x :: real
  assumes d: "x * 2 ^ k \<in> \<int>" and k: "k \<le> 45" and x: "1 \<le> x" "x < 128"
  shows "round64 x = Finite x"
proof -
  consider "x < 2" | "2 \<le> x" "x < 4" | "4 \<le> x" "x < 8" | "8 \<le> x" "x < 16"
    | "16 \<le> x" "x < 32" | "32 \<le> x" "x < 64" | "64 \<le> x"
    by linarith
  then show ?thesis
  proof cases
    case 1
    show ?thesis by (rule round64_dyadic_binade [where e = 0 and k = k]) (use 1 x d k in simp_all)
  next
    case 2
    show ?thesis by (rule round64_dyadic_binade [where e = 1 and k = k]) (use 2 d k in simp_all)
  next
    case 3
    show ?thesis by (rule round64_dyadic_binade [where e = 2 and k = k]) (use 3 d k in simp_all)
  next
    case 4
    show ?thesis by (rule round64_dyadic_binade [where e = 3 and k = k]) (use 4 d k in simp_all)
  next
    case 5
    show ?thesis by (rule round64_dyadic_binade [where e = 4 and k = k]) (use 5 d k in simp_all)
  next
    case 6
    show ?thesis by (rule round64_dyadic_binade [where e = 5 and k = k]) (use 6 d k in simp_all)
  next
    case 7
    show ?thesis by (rule round64_dyadic_binade [where e = 6 and k = k]) (use 7 x d k in simp_all)
  qed
qed

lemma round64_abs_error:
  assumes le: "\<bar>x\<bar> \<le> 2 powi k" and k: "- 1022 \<le> k" "k \<le> 1022"
  shows "\<exists>v. round64 x = Finite v \<and> \<bar>v - x\<bar> \<le> 2 powi (k - 53)"
proof (cases "x = 0")
  case True
  have "0 \<le> (2::real) powi (k - 53)" using two_powi_pos [of "k - 53"] by linarith
  with True show ?thesis by simp
next
  case False
  define u where "u = ulp x"
  define v where "v = of_int (rne (x / u)) * u"
  have u_pos: "0 < u" unfolding u_def ulp_def by (rule two_powi_pos)
  have "exponent x \<le> k" using False le k(1) by (rule exponent_le)
  then have "u \<le> 2 powi (k - 52)" unfolding u_def ulp_def by (intro two_powi_mono) simp
  also have "(2::real) powi (k - 52) = 2 * 2 powi (k - 53)"
    using two_powi_Suc [of "k - 53"] by simp
  finally have u_le: "u / 2 \<le> 2 powi (k - 53)" by simp
  have "v - x = (of_int (rne (x / u)) - x / u) * u"
    using u_pos by (simp add: v_def field_simps)
  then have "\<bar>v - x\<bar> = \<bar>of_int (rne (x / u)) - x / u\<bar> * u"
    using u_pos by (simp add: abs_mult)
  also have "\<dots> \<le> (1 / 2) * u"
    using rne_error [of "x / u"] u_pos by (intro mult_right_mono) simp_all
  finally have err: "\<bar>v - x\<bar> \<le> 2 powi (k - 53)" using u_le by simp
  have "(2::real) powi (k - 53) \<le> 2 powi 1022" using k by (intro two_powi_mono) simp
  moreover have "(2::real) powi k \<le> 2 powi 1022" using k by (intro two_powi_mono) simp
  moreover have "(2::real) powi 1024 = 4 * 2 powi 1022"
    using two_powi_Suc [of 1022] two_powi_Suc [of 1023] by simp
  ultimately have "\<bar>v\<bar> < overflow_threshold"
    unfolding overflow_threshold_def using err le two_powi_pos [of 1022] by linarith
  then have "\<not> overflow_threshold \<le> v" "\<not> v \<le> - overflow_threshold" by linarith+
  then have "round64 x = Finite v"
    using False by (simp add: round64_def Let_def v_def u_def)
  with err show ?thesis by blast
qed

section \<open>The solver\<close>

subsection \<open>Comparisons\<close>

lemma flt_fle_trans: "flt v t1 \<Longrightarrow> fle t1 t2 \<Longrightarrow> flt v t2"
  by (cases v; cases t1; cases t2) auto

lemma flt_asym: "flt a b \<Longrightarrow> \<not> flt b a"
  by (cases a; cases b) auto

subsection \<open>The bracket arithmetic is exact\<close>

lemma dyadic_Ints: "dyadic i x \<Longrightarrow> x * 2 ^ i \<in> \<int>"
  by (auto simp: dyadic_def)

lemma dyadic_add: "dyadic i a \<Longrightarrow> dyadic i b \<Longrightarrow> dyadic i (a + b)"
proof -
  assume "dyadic i a" "dyadic i b"
  then obtain m n :: int where "a * 2 ^ i = of_int m" "b * 2 ^ i = of_int n"
    by (auto simp: dyadic_def)
  then have "(a + b) * 2 ^ i = of_int (m + n)" by (simp add: distrib_right)
  then show ?thesis unfolding dyadic_def by blast
qed

lemma dyadic_Suc: "dyadic i a \<Longrightarrow> dyadic (Suc i) a"
proof -
  assume "dyadic i a"
  then obtain m :: int where "a * 2 ^ i = of_int m" by (auto simp: dyadic_def)
  then have "a * 2 ^ Suc i = of_int (2 * m)" by simp
  then show ?thesis unfolding dyadic_def by blast
qed

lemma dyadic_half: "dyadic i a \<Longrightarrow> dyadic (Suc i) (a / 2)"
proof -
  assume "dyadic i a"
  then obtain m :: int where "a * 2 ^ i = of_int m" by (auto simp: dyadic_def)
  then have "a / 2 * 2 ^ Suc i = of_int m" by simp
  then show ?thesis unfolding dyadic_def by blast
qed

lemma dyadic_of_int: "dyadic 0 (of_int n)"
  by (simp add: dyadic_def)

lemma bracket_mid_exact:
  fixes a b :: real
  assumes g: "dyadic i a" "dyadic i b" and i: "i \<le> 44"
    and o: "3 \<le> a" "a \<le> b" "b \<le> 8"
  shows "fmul (fadd (Finite a) (Finite b)) (Finite (1 / 2)) = Finite ((a + b) / 2)"
proof -
  have ds: "dyadic i (a + b)" using g by (rule dyadic_add)
  have s: "round64 (a + b) = Finite (a + b)"
    by (rule round64_grid [OF dyadic_Ints [OF ds]]) (use i o in simp_all)
  have m: "round64 ((a + b) / 2) = Finite ((a + b) / 2)"
    by (rule round64_grid [OF dyadic_Ints [OF dyadic_half [OF ds]]]) (use i o in simp_all)
  show ?thesis by (simp add: fadd.simps(1) fmul.simps(1) s m)
qed

subsection \<open>The bisection step on real brackets\<close>

lemma bisect_step_width:
  "snd (bisect_step this dx dy dz t b) - fst (bisect_step this dx dy dz t b) = (snd b - fst b) / 2"
  by (simp add: bisect_step_def Let_def field_simps)

lemma bisect_step_inside:
  "fst b \<le> snd b \<Longrightarrow>
   fst b \<le> fst (bisect_step this dx dy dz t b) \<and>
   fst (bisect_step this dx dy dz t b) \<le> snd (bisect_step this dx dy dz t b) \<and>
   snd (bisect_step this dx dy dz t b) \<le> snd b"
  by (simp add: bisect_step_def Let_def field_simps)

lemma bisect_step_grid:
  assumes "dyadic i (fst b)" "dyadic i (snd b)"
  shows "dyadic (Suc i) (fst (bisect_step this dx dy dz t b)) \<and>
         dyadic (Suc i) (snd (bisect_step this dx dy dz t b))"
  using dyadic_half [OF dyadic_add [OF assms]] dyadic_Suc [OF assms(1)] dyadic_Suc [OF assms(2)]
  by (simp add: bisect_step_def Let_def)

lemma bisect_funpow_width:
  "snd (((bisect_step this dx dy dz t) ^^ k) b) - fst (((bisect_step this dx dy dz t) ^^ k) b)
     = (snd b - fst b) / 2 ^ k"
  by (induction k) (simp_all add: bisect_step_width)

lemma bisect_funpow_inside:
  "fst b \<le> snd b \<Longrightarrow>
   fst b \<le> fst (((bisect_step this dx dy dz t) ^^ k) b) \<and>
   fst (((bisect_step this dx dy dz t) ^^ k) b) \<le> snd (((bisect_step this dx dy dz t) ^^ k) b) \<and>
   snd (((bisect_step this dx dy dz t) ^^ k) b) \<le> snd b"
proof (induction k)
  case 0
  then show ?case by simp
next
  case (Suc k)
  let ?c = "((bisect_step this dx dy dz t) ^^ k) b"
  from Suc have ih: "fst b \<le> fst ?c" "fst ?c \<le> snd ?c" "snd ?c \<le> snd b" by auto
  from bisect_step_inside [OF ih(2), of this dx dy dz t] ih
  show ?case by simp
qed

lemma bisect_funpow_grid:
  "dyadic i (fst b) \<Longrightarrow> dyadic i (snd b) \<Longrightarrow>
   dyadic (i + k) (fst (((bisect_step this dx dy dz t) ^^ k) b)) \<and>
   dyadic (i + k) (snd (((bisect_step this dx dy dz t) ^^ k) b))"
proof (induction k)
  case 0
  then show ?case by simp
next
  case (Suc k)
  let ?c = "((bisect_step this dx dy dz t) ^^ k) b"
  from Suc have "dyadic (i + k) (fst ?c)" "dyadic (i + k) (snd ?c)" by simp_all
  from bisect_step_grid [OF this, of this dx dy dz t] show ?case by simp
qed

subsection \<open>The solver's loop is the iterated bisection step\<close>

lemma solveRadius_loop_bisect:
  fixes a b :: real
  assumes "k = n - i" "i \<le> n" "n \<le> 44"
    and "dyadic i a" "dyadic i b" "3 \<le> a" "a \<le> b" "b \<le> 8"
  shows "solveRadius_loop this dx dy dz t n i (Finite a) (Finite b) =
           (Finite (fst (((bisect_step this dx dy dz t) ^^ k) (a, b))),
            Finite (snd (((bisect_step this dx dy dz t) ^^ k) (a, b))))"
  using assms
proof (induction k arbitrary: i a b)
  case 0
  then have "\<not> i < n" by simp
  then show ?case by (simp add: solveRadius_loop.simps [of this dx dy dz t n i])
next
  case (Suc k)
  let ?S = "bisect_step this dx dy dz t"
  let ?mid = "(a + b) / 2"
  have lt: "i < n" and k: "k = n - Suc i" and le: "Suc i \<le> n" using Suc.prems(1,2) by simp_all
  have i44: "i \<le> 44" using lt Suc.prems(3) by simp
  have mid: "fmul (fadd (Finite a) (Finite b)) (Finite (1 / 2)) = Finite ?mid"
    using Suc.prems(4,5) i44 Suc.prems(6,7,8) by (rule bracket_mid_exact)
  have g: "dyadic (Suc i) (fst (?S (a, b))) \<and> dyadic (Suc i) (snd (?S (a, b)))"
    by (rule bisect_step_grid) (use Suc.prems in simp_all)
  have o: "a \<le> fst (?S (a, b)) \<and> fst (?S (a, b)) \<le> snd (?S (a, b)) \<and> snd (?S (a, b)) \<le> b"
    using bisect_step_inside [of "(a, b)" this dx dy dz t] Suc.prems(7) by simp
  have ih: "solveRadius_loop this dx dy dz t n (Suc i) (Finite (fst (?S (a, b)))) (Finite (snd (?S (a, b))))
          = (Finite (fst ((?S ^^ k) (?S (a, b)))), Finite (snd ((?S ^^ k) (?S (a, b)))))"
    using Suc.IH [OF k le Suc.prems(3), of "fst (?S (a, b))" "snd (?S (a, b))"] g o Suc.prems(6,8)
    by simp
  have step: "solveRadius_loop this dx dy dz t n i (Finite a) (Finite b)
          = solveRadius_loop this dx dy dz t n (Suc i) (Finite (fst (?S (a, b)))) (Finite (snd (?S (a, b))))"
    using lt by (subst solveRadius_loop.simps) (simp add: mid Let_def bisect_step_def)
  show ?case
    unfolding step ih by (simp only: funpow_Suc_right o_apply)
qed

lemma solveRadius_funpow:
  "solveRadius this dx dy dz t =
     Finite ((fst (((bisect_step this dx dy dz t) ^^ 15) (3, 8)) +
              snd (((bisect_step this dx dy dz t) ^^ 15) (3, 8))) / 2)"
proof -
  let ?B = "((bisect_step this dx dy dz t) ^^ 15) (3, 8)"
  have d3: "dyadic 0 3" "dyadic 0 8"
    using dyadic_of_int [of 3] dyadic_of_int [of 8] by simp_all
  have loop: "solveRadius_loop this dx dy dz t 15 0 (Finite 3) (Finite 8)
                = (Finite (fst ?B), Finite (snd ?B))"
    by (rule solveRadius_loop_bisect) (use d3 in simp_all)
  have g: "dyadic (0 + 15) (fst ?B) \<and> dyadic (0 + 15) (snd ?B)"
    by (rule bisect_funpow_grid) (use d3 in simp_all)
  have o: "3 \<le> fst ?B \<and> fst ?B \<le> snd ?B \<and> snd ?B \<le> 8"
    using bisect_funpow_inside [where b = "(3, 8)" and k = 15 and this = this and dx = dx
        and dy = dy and dz = dz and t = t] by simp
  have "fmul (fadd (Finite (fst ?B)) (Finite (snd ?B))) (Finite (1 / 2))
          = Finite ((fst ?B + snd ?B) / 2)"
    by (rule bracket_mid_exact [where i = 15]) (use g o in simp_all)
  then show ?thesis by (simp add: solveRadius_def loop)
qed

subsection \<open>The solver's result grows with the target\<close>

lemma bisect_step_order:
  assumes "fle t1 t2" "fst b1 \<le> snd b1" "fst b2 \<le> snd b2"
    and "b1 = b2 \<or> snd b1 \<le> fst b2"
  shows "bisect_step this dx dy dz t1 b1 = bisect_step this dx dy dz t2 b2 \<or>
         snd (bisect_step this dx dy dz t1 b1) \<le> fst (bisect_step this dx dy dz t2 b2)"
proof (cases "b1 = b2")
  case True
  with assms(1,2) show ?thesis
    by (auto simp: bisect_step_def Let_def dest: flt_fle_trans)
next
  case False
  with assms(4) have sep: "snd b1 \<le> fst b2" by simp
  have "snd (bisect_step this dx dy dz t1 b1) \<le> snd b1"
    using bisect_step_inside [OF assms(2)] by simp
  moreover have "fst b2 \<le> fst (bisect_step this dx dy dz t2 b2)"
    using bisect_step_inside [OF assms(3)] by simp
  ultimately show ?thesis using sep by linarith
qed

lemma bisect_funpow_order:
  assumes "fle t1 t2"
  shows "fst b1 \<le> snd b1 \<Longrightarrow> fst b2 \<le> snd b2 \<Longrightarrow> b1 = b2 \<or> snd b1 \<le> fst b2 \<Longrightarrow>
         ((bisect_step this dx dy dz t1) ^^ k) b1 = ((bisect_step this dx dy dz t2) ^^ k) b2 \<or>
         snd (((bisect_step this dx dy dz t1) ^^ k) b1)
           \<le> fst (((bisect_step this dx dy dz t2) ^^ k) b2)"
proof (induction k)
  case 0
  then show ?case by simp
next
  case (Suc k)
  let ?c1 = "((bisect_step this dx dy dz t1) ^^ k) b1"
  let ?c2 = "((bisect_step this dx dy dz t2) ^^ k) b2"
  have o1: "fst ?c1 \<le> snd ?c1" using bisect_funpow_inside [OF Suc.prems(1)] by simp
  have o2: "fst ?c2 \<le> snd ?c2" using bisect_funpow_inside [OF Suc.prems(2)] by simp
  have "?c1 = ?c2 \<or> snd ?c1 \<le> fst ?c2" using Suc by simp
  from bisect_step_order [OF assms o1 o2 this, of this dx dy dz]
  show ?case by simp
qed

section \<open>Properties of the specification\<close>

text \<open>
  C9, for the first version of the class (the one with \<open>getGradient\<close>): a freshly
  constructed simulation has \<open>G = 1.0\<close>, \<open>omega = 0.0\<close> and the two masses
  \<open>{y: -1.5, m: 4.0}\<close>, \<open>{y: 2.0, m: 2.0}\<close>. The second version of the class has the same
  \<open>G\<close> and the same masses, and \<open>omega = 0.5\<close>.
\<close>

theorem constructor_defaults:
  "G constructor = Finite 1 \<and> omega constructor = Finite 0 \<and>
   masses constructor = [\<lparr> mass_y = Finite (- 3 / 2), mass_m = Finite 4 \<rparr>,
                         \<lparr> mass_y = Finite 2, mass_m = Finite 2 \<rparr>] \<and>
   G constructor_part_001 = Finite 1 \<and> omega constructor_part_001 = Finite (1 / 2) \<and>
   masses constructor_part_001 = masses constructor"
  by (simp add: constructor_def constructor_part_001_def)

text \<open>
  C9 as it is written speaks of every freshly constructed simulation: the second version
  of the class starts with \<open>omega = 0.5\<close>, not \<open>0.0\<close>.
\<close>

theorem constructor_part_001_omega_nonzero:
  "omega constructor_part_001 \<noteq> Finite 0"
  by (simp add: constructor_part_001_def)

text \<open>
  C2: \<open>solveRadius\<close> is fifteen bisection steps from the bracket \<open>(3.0, 8.0)\<close>, each
  step being \<^const>\<open>bisect_step\<close> (the potential at the midpoint scaled along the
  direction; \<open>rMin = mid\<close> when it is strictly below the target, \<open>rMax = mid\<close>
  otherwise); the result is the midpoint of the final bracket, and the final bracket has
  the width \<open>(8.0 - 3.0) / 2^15\<close>. The bounds and midpoints are computed without
  rounding error.
\<close>

theorem solveRadius_bisection:
  "solveRadius this dx dy dz t =
     Finite ((fst (((bisect_step this dx dy dz t) ^^ 15) (3, 8)) +
              snd (((bisect_step this dx dy dz t) ^^ 15) (3, 8))) / 2) \<and>
   snd (((bisect_step this dx dy dz t) ^^ 15) (3, 8)) -
     fst (((bisect_step this dx dy dz t) ^^ 15) (3, 8)) = (8 - 3) / 2 ^ 15"
  using bisect_funpow_width [where this=this and dx=dx and dy=dy and dz=dz and t=t
      and k=15 and b="(3, 8)"]
  by (simp add: solveRadius_funpow)

text \<open>
  C8: for every configuration, direction and target (NaN and the infinities included),
  \<open>solveRadius\<close> returns a finite number, and it lies in the initial bracket
  \<open>[3.0, 8.0]\<close>.
\<close>

theorem solveRadius_in_bracket:
  "\<exists>v. solveRadius this dx dy dz t = Finite v \<and> 3 \<le> v \<and> v \<le> 8"
proof -
  let ?B = "((bisect_step this dx dy dz t) ^^ 15) (3, 8)"
  have "3 \<le> fst ?B \<and> fst ?B \<le> snd ?B \<and> snd ?B \<le> 8"
    using bisect_funpow_inside [where this=this and dx=dx and dy=dy and dz=dz and t=t
        and k=15 and b="(3, 8)"] by simp
  then have "3 \<le> (fst ?B + snd ?B) / 2 \<and> (fst ?B + snd ?B) / 2 \<le> 8" by simp
  then show ?thesis unfolding solveRadius_funpow by blast
qed

text \<open>
  C10: for a fixed configuration and direction, \<open>solveRadius\<close> is non-decreasing in its
  target: \<open>t1 <= t2\<close> gives \<open>solveRadius(dx,dy,dz,t1) <= solveRadius(dx,dy,dz,t2)\<close>,
  whatever the potential does along the ray.
\<close>

theorem solveRadius_mono_target:
  assumes "fle t1 t2"
  shows "fle (solveRadius this dx dy dz t1) (solveRadius this dx dy dz t2)"
proof -
  let ?c1 = "((bisect_step this dx dy dz t1) ^^ 15) (3, 8)"
  let ?c2 = "((bisect_step this dx dy dz t2) ^^ 15) (3, 8)"
  have o1: "fst ?c1 \<le> snd ?c1"
    using bisect_funpow_inside [where b="(3, 8)" and k=15 and t=t1] by simp
  have o2: "fst ?c2 \<le> snd ?c2"
    using bisect_funpow_inside [where b="(3, 8)" and k=15 and t=t2] by simp
  have "?c1 = ?c2 \<or> snd ?c1 \<le> fst ?c2"
    using bisect_funpow_order [OF assms, where ?b1.0="(3, 8)" and ?b2.0="(3, 8)" and k=15]
    by simp
  then have "(fst ?c1 + snd ?c1) / 2 \<le> (fst ?c2 + snd ?c2) / 2"
  proof
    assume "?c1 = ?c2"
    then show ?thesis by simp
  next
    assume sep: "snd ?c1 \<le> fst ?c2"
    define a1 b1 a2 b2 where "a1 = fst ?c1" and "b1 = snd ?c1" and "a2 = fst ?c2" and "b2 = snd ?c2"
    have "a1 \<le> b1" "a2 \<le> b2" "b1 \<le> a2"
      using o1 o2 sep by (simp_all only: a1_def b1_def a2_def b2_def)
    then have "(a1 + b1) / 2 \<le> (a2 + b2) / 2" by simp
    then show ?thesis by (simp only: a1_def b1_def a2_def b2_def)
  qed
  then show ?thesis by (simp only: solveRadius_funpow fle.simps)
qed

theorem solveRadius_mono_target_witness:
  "fle (Finite (- 2)) (Finite (- 1)) \<and>
   fle (solveRadius constructor (Finite 1) (Finite 0) (Finite 0) (Finite (- 2)))
       (solveRadius constructor (Finite 1) (Finite 0) (Finite 0) (Finite (- 1)))"
  using solveRadius_mono_target [of "Finite (- 2)" "Finite (- 1)" constructor "Finite 1" "Finite 0" "Finite 0"]
  by simp

end
